theory Spec2Isabelle
  imports Complex_Main
begin

section \<open>Data model of the streaming pipeline view (Component3)\<close>

text \<open>
  The view keeps its state in React hooks. A state setter replaces one field, so the
  component is a record and every handler is a function from the record to the updated
  record. A perspective is an object whose fields the handlers never inspect; the
  fields the display reads are kept.
\<close>

record perspective =
  pid :: string
  color :: string
  ptext :: string

text \<open>
  A JavaScript object with string keys, as the list of its own properties in the order
  of \<open>Object.keys\<close>: the keys that are array indices come first, in ascending numeric
  order, and the other keys follow in the order in which they were created. Keys are
  distinct. Colours are strings.
\<close>

type_synonym 'v jsobject = "(string \<times> 'v) list"

definition keys :: "'v jsobject \<Rightarrow> string list" where
  "keys obj = map fst obj"

text \<open>The own property of a name, \<open>None\<close> when the object has no own property of it.\<close>

definition lookup :: "'v jsobject \<Rightarrow> string \<Rightarrow> 'v option" where
  "lookup obj k = map_of obj k"

text \<open>
  An array index is the canonical decimal numeral (no leading zero, no sign) of an
  integer below \<open>2^32 - 1\<close>.
\<close>

definition digitValue :: "char \<Rightarrow> int option" where
  "digitValue ch =
     map_of [(CHR ''0'', 0), (CHR ''1'', 1), (CHR ''2'', 2), (CHR ''3'', 3), (CHR ''4'', 4),
             (CHR ''5'', 5), (CHR ''6'', 6), (CHR ''7'', 7), (CHR ''8'', 8), (CHR ''9'', 9)] ch"

fun decimal :: "int \<Rightarrow> string \<Rightarrow> int option" where
  "decimal n [] = Some n"
| "decimal n (ch # rest) =
     (case digitValue ch of None \<Rightarrow> None | Some d \<Rightarrow> decimal (10 * n + d) rest)"

definition arrayIndex :: "string \<Rightarrow> int option" where
  "arrayIndex k =
     (case k of
        [] \<Rightarrow> None
      | ch # rest \<Rightarrow>
          (case digitValue ch of
             None \<Rightarrow> None
           | Some d \<Rightarrow>
               if d = 0 \<and> rest \<noteq> [] then None
               else (case decimal d rest of
                       None \<Rightarrow> None
                     | Some n \<Rightarrow> if n < 4294967295 then Some n else None)))"

text \<open>
  A new key \<open>k\<close> is listed before an existing key \<open>k'\<close> when \<open>k\<close> is an array
  index and \<open>k'\<close> is none or a greater one.
\<close>

definition precedes :: "string \<Rightarrow> string \<Rightarrow> bool" where
  "precedes k k' =
     (case arrayIndex k of
        None \<Rightarrow> False
      | Some i \<Rightarrow> (case arrayIndex k' of None \<Rightarrow> True | Some j \<Rightarrow> i < j))"

text \<open>
  \<open>{...prev, [k]: v}\<close>: an existing key keeps its position; a new key that is an array
  index goes to its place among the indices, any other new key goes last. The computed
  key defines an own property whatever the name, also for \<open>__proto__\<close>.
\<close>

fun assign :: "string \<Rightarrow> 'v \<Rightarrow> 'v jsobject \<Rightarrow> 'v jsobject" where
  "assign k v [] = [(k, v)]"
| "assign k v ((k', v') # obj) =
     (if k' = k then (k, v) # obj
      else if precedes k k' then (k, v) # (k', v') # obj
      else (k', v') # assign k v obj)"

text \<open>
  The list is in the order of \<open>Object.keys\<close> with distinct keys: no key is equal to,
  or would be listed before, a key in front of it.
\<close>

fun keyOrdered :: "'v jsobject \<Rightarrow> bool" where
  "keyOrdered [] = True"
| "keyOrdered ((k, v) # obj) =
     (list_all (\<lambda>k'. k' \<noteq> k \<and> \<not> precedes k' k) (keys obj) \<and> keyOrdered obj)"

text \<open>
  The members that every object literal and every parsed JSON object inherits from
  \<open>Object.prototype\<close>, each with the value of its \<open>length\<close> property: the number of
  parameters of a function, and none for the prototype object that the accessor
  \<open>__proto__\<close> yields. All of them are truthy.
\<close>

definition objectPrototype :: "(string \<times> nat option) list" where
  "objectPrototype =
     [(''constructor'', Some 1), (''__defineGetter__'', Some 2), (''__defineSetter__'', Some 2),
      (''hasOwnProperty'', Some 1), (''__lookupGetter__'', Some 1), (''__lookupSetter__'', Some 1),
      (''isPrototypeOf'', Some 1), (''propertyIsEnumerable'', Some 1), (''toString'', Some 0),
      (''valueOf'', Some 0), (''__proto__'', None), (''toLocaleString'', Some 0)]"

definition inherited :: "string \<Rightarrow> bool" where
  "inherited k = (map_of objectPrototype k \<noteq> None)"

text \<open>A value read from parsed JSON where the code asks \<open>Array.isArray\<close>.\<close>

datatype jsvalue = Arr "perspective list" | NotArray

text \<open>
  The text of a WebSocket message: either \<open>JSON.parse\<close> (or a field access on its
  result) throws, or it yields an object with the fields \<open>color\<close>, \<open>perspectives\<close>
  and \<open>type\<close>, each of which may be missing. A colour that is present is a string.
\<close>

datatype wsdata =
  Unparseable
  | Data (dcolor: "string option") (dperspectives: jsvalue) (dtype: "string option")

record results =
  input_significance :: "real option"
  significance :: "real option"

record component3 =
  stage :: string
  progress :: int
  error :: "string option"
  results :: "results option"
  polling :: bool
  perspectivesByColor :: "perspective list jsobject"
  wsRef :: bool
  selectedPerspectives :: "perspective list"
  cacheAvailable :: bool
  cacheSnapshot :: "(string \<times> jsvalue) list option"
  showChart :: bool
  revealedColors :: "string list"
  chartFullyLoaded :: bool

text \<open>Truthiness of an optional string: missing and the empty string are falsy.\<close>

fun truthy :: "string option \<Rightarrow> bool" where
  "truthy None = False"
| "truthy (Some str) = (str \<noteq> [])"

section \<open>The push channel: \<open>ws.onmessage\<close>\<close>

text \<open>\<open>rc.includes(c) ? rc : [...rc, c]\<close>\<close>

definition reveal :: "string \<Rightarrow> string list \<Rightarrow> string list" where
  "reveal c rc = (if c \<in> set rc then rc else rc @ [c])"

text \<open>
  The handler installed by \<open>startPipeline\<close>. A message with a truthy colour and an
  array of perspectives stores the array under the colour and reveals the colour; a
  ping and every other message only write to the console, and an exception of
  \<open>JSON.parse\<close> is caught and logged.
\<close>

fun wsOnMessage :: "wsdata \<Rightarrow> component3 \<Rightarrow> component3" where
  "wsOnMessage (Data (Some c) (Arr ps) t) s =
     (if c \<noteq> [] then
        s\<lparr>perspectivesByColor := assign c ps (perspectivesByColor s),
          revealedColors := reveal c (revealedColors s)\<rparr>
      else if t = Some ''ping'' then s else s)"
| "wsOnMessage (Data c ps t) s = (if t = Some ''ping'' then s else s)"
| "wsOnMessage Unparseable s = s"

text \<open>
  The handler installed on a reconnected socket: the same, without the reveal.
\<close>

fun wsOnMessageReconnected :: "wsdata \<Rightarrow> component3 \<Rightarrow> component3" where
  "wsOnMessageReconnected (Data (Some c) (Arr ps) t) s =
     (if c \<noteq> [] then s\<lparr>perspectivesByColor := assign c ps (perspectivesByColor s)\<rparr>
      else if t = Some ''ping'' then s else s)"
| "wsOnMessageReconnected (Data c ps t) s = (if t = Some ''ping'' then s else s)"
| "wsOnMessageReconnected Unparseable s = s"

text \<open>
  A message is perspective data when its colour is truthy and its payload is an array;
  every other message is malformed (or a ping).
\<close>

fun isPerspectiveData :: "wsdata \<Rightarrow> bool" where
  "isPerspectiveData (Data c (Arr ps) t) = truthy c"
| "isPerspectiveData (Data c NotArray t) = False"
| "isPerspectiveData Unparseable = False"

section \<open>The chart input: \<open>chartPerspectives\<close>\<close>

text \<open>
  What the chart object can hold under a key: an array the state holds, or the member
  of \<open>Object.prototype\<close> of the given name.
\<close>

datatype chartValue = Held "perspective list" | Member string

text \<open>
  \<open>perspectivesByColor[c]\<close>: the own property, else the inherited member of that
  name, else \<open>undefined\<close> (\<open>None\<close>). Arrays, also empty ones, and inherited members
  are truthy.
\<close>

definition readMember :: "perspective list jsobject \<Rightarrow> string \<Rightarrow> chartValue option" where
  "readMember byColor c =
     (case lookup byColor c of
        Some ps \<Rightarrow> Some (Held ps)
      | None \<Rightarrow> if inherited c then Some (Member c) else None)"

text \<open>
  \<open>obj[c] = v\<close> on the object the memo builds: an own property is written, except for
  the name \<open>__proto__\<close>, whose inherited setter takes the value as the new prototype
  and creates no key.
\<close>

definition store :: "string \<Rightarrow> chartValue \<Rightarrow> chartValue jsobject \<Rightarrow> chartValue jsobject" where
  "store c v obj = (if c = ''__proto__'' then obj else assign c v obj)"

fun chartFill ::
  "string list \<Rightarrow> perspective list jsobject \<Rightarrow> chartValue jsobject
     \<Rightarrow> chartValue jsobject" where
  "chartFill [] byColor obj = obj"
| "chartFill (c # cs) byColor obj =
     chartFill cs byColor
       (case readMember byColor c of Some v \<Rightarrow> store c v obj | None \<Rightarrow> obj)"

definition chartPerspectives :: "component3 \<Rightarrow> chartValue jsobject" where
  "chartPerspectives s =
     (if \<not> showChart s then []
      else chartFill (revealedColors s) (perspectivesByColor s) [])"

section \<open>The pull channel: the polling callback of \<open>beginPolling\<close>\<close>

text \<open>The JSON answer of the status endpoint; each field may be missing.\<close>

record status =
  st_stage :: "string option"
  st_progress :: "int option"
  st_error :: "string option"

datatype 'a response = Failed string | Received 'a

text \<open>Requests the handlers send, in the order they send them.\<close>

datatype request = CloseSocket | OpenSocket | PostRun | GetResults

text \<open>\<open>a || b\<close> on an optional string.\<close>

fun orElse :: "string option \<Rightarrow> string \<Rightarrow> string" where
  "orElse None d = d"
| "orElse (Some str) d = (if str = [] then d else str)"

text \<open>The list held for a colour, empty when the colour is not held.\<close>

definition existing :: "perspective list jsobject \<Rightarrow> string \<Rightarrow> perspective list" where
  "existing byColor c = (case lookup byColor c of Some ps \<Rightarrow> ps | None \<Rightarrow> [])"

text \<open>
  \<open>(byColor[c] || []).length\<close>: the length of the held array; where nothing is held
  under \<open>c\<close> the read finds the inherited member of that name, if there is one, and
  yields its \<open>length\<close> (\<open>None\<close> is \<open>undefined\<close>), and else the length of \<open>[]\<close>.
\<close>

definition existingLength :: "perspective list jsobject \<Rightarrow> string \<Rightarrow> nat option" where
  "existingLength byColor c =
     (case lookup byColor c of
        Some ps \<Rightarrow> Some (length ps)
      | None \<Rightarrow> (case map_of objectPrototype c of Some len \<Rightarrow> len | None \<Rightarrow> Some 0))"

text \<open>
  The loop over \<open>Object.entries(cacheData)\<close>. The lengths are compared with
  \<open>captured\<close>, the value of \<open>perspectivesByColor\<close> that the callback's closure holds
  (the one of the render in which \<open>startPipeline\<close> ran), while the update is applied
  to \<open>prev\<close>, the current value.
\<close>

fun cacheEntries ::
  "perspective list jsobject \<Rightarrow> jsvalue jsobject \<Rightarrow> perspective list jsobject
     \<Rightarrow> perspective list jsobject" where
  "cacheEntries captured [] prev = prev"
| "cacheEntries captured ((c, Arr ps) # rest) prev =
     cacheEntries captured rest
       (if length ps > 0 \<and> existingLength captured c \<noteq> Some (length ps)
        then assign c ps prev else prev)"
| "cacheEntries captured ((c, NotArray) # rest) prev = cacheEntries captured rest prev"

text \<open>The special handling of \<open>cacheData.violet\<close> after the loop.\<close>

definition cacheViolet ::
  "jsvalue jsobject \<Rightarrow> perspective list jsobject \<Rightarrow> perspective list jsobject" where
  "cacheViolet cacheData prev =
     (case lookup cacheData ''violet'' of
        Some (Arr ps) \<Rightarrow> if length ps > 0 then assign ''violet'' ps prev else prev
      | Some NotArray \<Rightarrow> prev
      | None \<Rightarrow> prev)"

definition applyCache ::
  "perspective list jsobject \<Rightarrow> jsvalue jsobject \<Rightarrow> perspective list jsobject
     \<Rightarrow> perspective list jsobject" where
  "applyCache captured cacheData prev =
     cacheViolet cacheData (cacheEntries captured cacheData prev)"

text \<open>A run of cache snapshots handled by one polling interval (one closure).\<close>

fun applyCaches ::
  "perspective list jsobject \<Rightarrow> jsvalue jsobject list \<Rightarrow> perspective list jsobject
     \<Rightarrow> perspective list jsobject" where
  "applyCaches captured [] prev = prev"
| "applyCaches captured (cacheData # later) prev =
     applyCaches captured later (applyCache captured cacheData prev)"

definition beginPolling :: "component3 \<Rightarrow> component3" where
  "beginPolling s = s\<lparr>polling := True\<rparr>"

text \<open>Whether this tick asks for the cache: \<open>data.stage === 'module3' && data.progress > 0\<close>.\<close>

definition cacheDue :: "status \<Rightarrow> bool" where
  "cacheDue d =
     (st_stage d = Some ''module3'' \<and> (case st_progress d of Some n \<Rightarrow> n > 0 | None \<Rightarrow> False))"

text \<open>
  Lines 416 to 455 of the callback: stage and progress are taken from the answer, and
  when the cache is due and its fetch gave an object (\<open>cacheRes = Some cacheData\<close>; a
  failed fetch is caught and logged) the snapshot is applied.
\<close>

definition statusAndCache ::
  "perspective list jsobject \<Rightarrow> status \<Rightarrow> jsvalue jsobject option \<Rightarrow> component3
     \<Rightarrow> component3" where
  "statusAndCache captured d cacheRes s =
     (let s1 = s\<lparr>stage := orElse (st_stage d) ''idle'',
                 progress := (case st_progress d of Some n \<Rightarrow> n | None \<Rightarrow> 0)\<rparr>
      in if cacheDue d then
           (case cacheRes of
              Some cacheData \<Rightarrow>
                s1\<lparr>perspectivesByColor := applyCache captured cacheData (perspectivesByColor s1)\<rparr>
            | None \<Rightarrow> s1)
         else s1)"

text \<open>One firing of the interval: the whole callback.\<close>

definition pollTick ::
  "perspective list jsobject \<Rightarrow> status response \<Rightarrow> jsvalue jsobject option \<Rightarrow> component3
     \<Rightarrow> request list \<times> component3" where
  "pollTick captured res cacheRes s =
     (case res of
        Failed msg \<Rightarrow> ([], s\<lparr>error := Some (''Cannot reach orchestrator: '' @ msg)\<rparr>)
      | Received d \<Rightarrow>
          (let s2 = statusAndCache captured d cacheRes s
           in if truthy (st_error d) then
                ([], s2\<lparr>error := st_error d, polling := False, stage := ''error''\<rparr>)
              else if st_stage d = Some ''done'' then
                ([GetResults], s2\<lparr>polling := False\<rparr>)
              else ([], s2)))"

section \<open>Starting a run: \<open>startPipeline\<close>\<close>

text \<open>The state the hooks are created with.\<close>

definition initialState :: component3 where
  "initialState =
     \<lparr>stage = ''idle'', progress = 0, error = None, results = None, polling = False,
      perspectivesByColor = [], wsRef = False, selectedPerspectives = [],
      cacheAvailable = False, cacheSnapshot = None, showChart = False,
      revealedColors = [], chartFullyLoaded = False\<rparr>"

text \<open>Lines 313 to 323: the reset.\<close>

definition resetRun :: "component3 \<Rightarrow> component3" where
  "resetRun s =
     s\<lparr>error := None, results := None, progress := 0, stage := ''queued'',
       perspectivesByColor := [], cacheSnapshot := None, cacheAvailable := False,
       selectedPerspectives := [], showChart := False, revealedColors := []\<rparr>"

text \<open>
  \<open>wsError\<close> is \<open>None\<close> when \<open>new WebSocket\<close> returns a socket and \<open>Some msg\<close> when
  it throws an error with message \<open>msg\<close>; then the catch block records the error and
  starts polling without a socket.
\<close>

definition startPipeline ::
  "string option \<Rightarrow> component3 \<Rightarrow> request list \<times> component3" where
  "startPipeline wsError s =
     (if stage s \<noteq> ''idle'' \<and> stage s \<noteq> ''error'' \<and> stage s \<noteq> ''done'' then ([], s)
      else
        (let s1 = resetRun s;
             closing = (if wsRef s then [CloseSocket] else [])
         in case wsError of
              None \<Rightarrow> (closing @ [OpenSocket], s1\<lparr>wsRef := True\<rparr>)
            | Some msg \<Rightarrow>
                (closing,
                 beginPolling (s1\<lparr>error := Some (''WebSocket initialization error: '' @ msg)\<rparr>))))"

text \<open>\<open>ws.onopen\<close>: the run is triggered once the socket is open.\<close>

definition wsOnOpen :: "component3 \<Rightarrow> request list \<times> component3" where
  "wsOnOpen s = ([PostRun], s)"

text \<open>
  The answer to the run trigger: \<open>Received ok\<close> carries \<open>response.ok\<close> and the status
  code as text, \<open>Failed msg\<close> is a rejected fetch.
\<close>

definition runResponse :: "(bool \<times> string) response \<Rightarrow> component3 \<Rightarrow> component3" where
  "runResponse res s =
     (case res of
        Received (ok, code) \<Rightarrow>
          if \<not> ok then s\<lparr>error := Some (''Pipeline start failed: '' @ code)\<rparr>
          else beginPolling s
      | Failed msg \<Rightarrow> s\<lparr>error := Some (''Cannot reach orchestrator: '' @ msg)\<rparr>)"

section \<open>Mounting the chart and the progressive reveal\<close>

text \<open>The timer of the auto-scroll effect: the chart is mounted once a colour is known.\<close>

definition mountChart :: "component3 \<Rightarrow> component3" where
  "mountChart s =
     (if \<not> showChart s \<and> length (keys (perspectivesByColor s)) > 0
      then s\<lparr>showChart := True\<rparr> else s)"

text \<open>
  The colour the reveal effect sets its timer for, if it sets one: the first key that
  is not revealed, unless there is none or it is falsy (the empty string).
\<close>

definition nextColor :: "component3 \<Rightarrow> string option" where
  "nextColor s =
     (if \<not> showChart s then None
      else
        (let allColors = keys (perspectivesByColor s)
         in if length allColors = 0 then None
            else if length (revealedColors s) \<ge> length allColors then None
            else (case filter (\<lambda>c. c \<notin> set (revealedColors s)) allColors of
                    [] \<Rightarrow> None
                  | next # others \<Rightarrow> if next = [] then None else Some next)))"

text \<open>
  The state after the timer that the reveal effect set has fired: the chosen colour is
  revealed, or the chart is marked fully loaded when as many colours are revealed as
  are known. Where the effect sets no timer the state stays as it is.
\<close>

definition progressiveReveal :: "component3 \<Rightarrow> component3" where
  "progressiveReveal s =
     (if \<not> showChart s then s
      else if length (keys (perspectivesByColor s)) = 0 then s
      else if length (revealedColors s) \<ge> length (keys (perspectivesByColor s))
        then s\<lparr>chartFullyLoaded := True\<rparr>
      else (case nextColor s of
              None \<Rightarrow> s
            | Some next \<Rightarrow> s\<lparr>revealedColors := reveal next (revealedColors s)\<rparr>))"

text \<open>
  The spectral order of the colours, as the card grid sorts them
  (\<open>order\<close> and \<open>idx\<close> in \<open>ExpandablePerspectiveCards\<close>): unknown colours go last.
\<close>

definition order_colors :: "string list" where
  "order_colors =
     [''red'', ''orange'', ''yellow'', ''green'', ''teal'', ''blue'', ''indigo'', ''violet'',
      ''purple'']"

fun indexOf :: "string list \<Rightarrow> string \<Rightarrow> nat option" where
  "indexOf [] c = None"
| "indexOf (x # xs) c =
     (if x = c then Some 0 else (case indexOf xs c of None \<Rightarrow> None | Some i \<Rightarrow> Some (Suc i)))"

definition idx :: "string \<Rightarrow> nat" where
  "idx c = (case indexOf order_colors c of None \<Rightarrow> length order_colors + 1 | Some i \<Rightarrow> i)"

section \<open>The significance explanation: \<open>buildSignificanceExplanation\<close>\<close>

text \<open>
  JavaScript numbers are taken as real numbers and \<open>Math.pow\<close> on a non-negative base
  as \<open>powr\<close>. \<open>inputSignificance\<close> is \<open>None\<close> when the results carry no number (or
  NaN); then the significance is derived from the count. The function returns
  \<open>null\<close> for a count of zero.
\<close>

record explanation =
  expl_N :: int
  expl_s :: real
  expl_raw :: real
  expl_forward :: int
  expl_derived :: bool

definition buildSignificanceExplanation :: "int \<Rightarrow> real option \<Rightarrow> explanation option" where
  "buildSignificanceExplanation totalPerspectives inputSignificance =
     (if totalPerspectives = 0 then None
      else
        (let N = totalPerspectives;
             s = (case inputSignificance of
                    Some x \<Rightarrow> min 1 (max 0 x)
                  | None \<Rightarrow> (max 0 (of_int N - 8) / 128) powr (1 / 2.8));
             raw = 128 * s powr 2.8 + 8
         in Some \<lparr>expl_N = N, expl_s = s, expl_raw = raw, expl_forward = \<lceil>raw\<rceil>,
                  expl_derived = (inputSignificance = None)\<rparr>))"

section \<open>The quota allocator\<close>

text \<open>
  Modelled from the spec: QuotaAllocator.allocate and its data. The reducer script the
  view's help text names (TOP-N_K_MEANS-CLUSTERING.py) is not among the source files,
  so the definitions of this section follow section 4.2 of the specification.
\<close>

datatype band = Left | Common | Right

text \<open>Modelled from the spec: the map from band to population size, as a list of entries.\<close>

type_synonym bandSizes = "(band \<times> nat) list"

text \<open>Modelled from the spec: the total population is the sum of the band sizes.\<close>

definition totalPopulation :: "bandSizes \<Rightarrow> nat" where
  "totalPopulation bandSizes = sum_list (map snd bandSizes)"

text \<open>Modelled from the spec: step 1, the raw share \<open>(size / totalPopulation) * k\<close>.\<close>

definition rawShare :: "bandSizes \<Rightarrow> int \<Rightarrow> nat \<Rightarrow> rat" where
  "rawShare bandSizes k n = (of_nat n / of_nat (totalPopulation bandSizes)) * of_int k"

text \<open>Modelled from the spec: a band with its size, raw share and current quota.\<close>

record allotment =
  a_band :: band
  a_size :: nat
  a_raw :: rat
  a_quota :: int

text \<open>
  Modelled from the spec: a band is eligible for an adjustment by \<open>d\<close> when its quota
  stays within \<open>[0, size]\<close>.
\<close>

definition inRange :: "int \<Rightarrow> allotment \<Rightarrow> bool" where
  "inRange d a = (0 \<le> a_quota a + d \<and> a_quota a + d \<le> int (a_size a))"

text \<open>
  Modelled from the spec: among candidates (position, band), the one whose fractional
  remainder is best; of equal remainders the earliest wins.
\<close>

fun selectBest ::
  "(rat \<Rightarrow> rat \<Rightarrow> bool) \<Rightarrow> nat \<times> allotment \<Rightarrow> (nat \<times> allotment) list \<Rightarrow> nat" where
  "selectBest better cur [] = fst cur"
| "selectBest better cur (c # cs) =
     selectBest better
       (if better (frac (a_raw (snd c))) (frac (a_raw (snd cur))) then c else cur) cs"

text \<open>
  Modelled from the spec: step 3, the eligible band with the largest fractional
  remainder when quota is added, the smallest when it is taken away; \<open>None\<close> when no
  band is eligible.
\<close>

definition pick :: "int \<Rightarrow> allotment list \<Rightarrow> nat option" where
  "pick d qs =
     (case filter (\<lambda>c. inRange d (snd c)) (enumerate 0 qs) of
        [] \<Rightarrow> None
      | c # cs \<Rightarrow> Some (selectBest (if d > 0 then (\<lambda>x y. x > y) else (\<lambda>x y. x < y)) c cs))"

text \<open>Modelled from the spec: the quota at position \<open>i\<close> adjusted by \<open>d\<close>.\<close>

definition adjust :: "nat \<Rightarrow> int \<Rightarrow> allotment list \<Rightarrow> allotment list" where
  "adjust i d qs = qs[i := (qs ! i)\<lparr>a_quota := a_quota (qs ! i) + d\<rparr>]"

text \<open>
  Modelled from the spec: the loop of step 3, run until \<open>delta\<close> is 0. The
  specification does not say what happens when no band is eligible; the loop then has
  no step to take, which is the result \<open>None\<close>.
\<close>

function rebalance :: "allotment list \<Rightarrow> int \<Rightarrow> allotment list option" where
  "rebalance qs delta =
     (if delta = 0 then Some qs
      else (case pick (if delta > 0 then 1 else - 1) qs of
              None \<Rightarrow> None
            | Some i \<Rightarrow>
                rebalance (adjust i (if delta > 0 then 1 else - 1) qs)
                  (delta - (if delta > 0 then 1 else - 1))))"
  by pat_completeness auto
termination
  by (relation "measure (\<lambda>(qs, delta). nat \<bar>delta\<bar>)") auto

text \<open>
  Modelled from the spec: SelectionQuota, with the flag of section 7 (the requested
  \<open>k\<close> exceeds the population).
\<close>

record selectionQuota =
  quotas :: "(band \<times> int) list"
  truncated :: bool

text \<open>Modelled from the spec: step 2, every band starts at its rounded raw share.\<close>

definition initialQuotas :: "bandSizes \<Rightarrow> int \<Rightarrow> allotment list" where
  "initialQuotas bandSizes k =
     map (\<lambda>(b, n). \<lparr>a_band = b, a_size = n, a_raw = rawShare bandSizes k n,
                     a_quota = round (rawShare bandSizes k n)\<rparr>) bandSizes"

text \<open>
  Modelled from the spec: \<open>allocate\<close>. Step 4 comes first: when \<open>k\<close> is at least
  the population every band gets its whole population.
\<close>

definition allocate :: "bandSizes \<Rightarrow> int \<Rightarrow> selectionQuota option" where
  "allocate bandSizes k =
     (if k \<ge> int (totalPopulation bandSizes) then
        Some \<lparr>quotas = map (\<lambda>(b, n). (b, int n)) bandSizes,
              truncated = (k > int (totalPopulation bandSizes))\<rparr>
      else
        (case rebalance (initialQuotas bandSizes k)
                (k - sum_list (map a_quota (initialQuotas bandSizes k))) of
           None \<Rightarrow> None
         | Some qs \<Rightarrow> Some \<lparr>quotas = map (\<lambda>a. (a_band a, a_quota a)) qs, truncated = False\<rparr>))"

text \<open>Every quota lies within \<open>[0, size]\<close>: the invariant of the loop.\<close>

definition withinSizes :: "allotment list \<Rightarrow> bool" where
  "withinSizes qs = list_all (\<lambda>a. 0 \<le> a_quota a \<and> a_quota a \<le> int (a_size a)) qs"

section \<open>Sample data\<close>

text \<open>A perspective with the given id and colour.\<close>

definition item :: "string \<Rightarrow> string \<Rightarrow> perspective" where
  "item i c = \<lparr>pid = i, color = c, ptext = []\<rparr>"

text \<open>Red and blue are held, the chart is mounted and red is revealed.\<close>

definition chartState :: component3 where
  "chartState =
     initialState\<lparr>perspectivesByColor :=
         [(''red'', [item ''a'' ''red'']), (''blue'', [item ''b'' ''blue''])],
       showChart := True, revealedColors := [''red'']\<rparr>"

text \<open>
  A finished run in which a push message revealed the colour constructor and the
  results then replaced the per-colour object by one that holds red only.
\<close>

definition constructorRevealed :: component3 where
  "constructorRevealed =
     initialState\<lparr>stage := ''done'', progress := 100, wsRef := True,
       perspectivesByColor := [(''red'', [item ''r'' ''red''])],
       showChart := True, revealedColors := [''constructor'']\<rparr>"

text \<open>The state after a start from the initial state, with the socket created.\<close>

definition startedState :: component3 where
  "startedState = snd (startPipeline None initialState)"

text \<open>The state after a push message for colour \<open>c\<close> carrying the array \<open>ps\<close>.\<close>

definition pushed :: "string \<Rightarrow> perspective list \<Rightarrow> component3 \<Rightarrow> component3" where
  "pushed c ps s = wsOnMessage (Data (Some c) (Arr ps) None) s"

definition fiveViolet :: "perspective list" where
  "fiveViolet = [item ''v1'' ''violet'', item ''v2'' ''violet'', item ''v3'' ''violet'',
     item ''v4'' ''violet'', item ''v5'' ''violet'']"

definition threeViolet :: "perspective list" where
  "threeViolet = [item ''v1'' ''violet'', item ''v2'' ''violet'', item ''v3'' ''violet'']"

definition module3Status :: status where
  "module3Status = \<lparr>st_stage = Some ''module3'', st_progress = Some 50, st_error = None\<rparr>"

definition errorStatus :: status where
  "errorStatus = \<lparr>st_stage = Some ''module2'', st_progress = Some 40, st_error = Some ''boom''\<rparr>"

text \<open>
  A run that received five violet perspectives by push, then a cache of three. The
  polling callback was created in the render of the initial state, so the object it
  compares lengths with is the empty one.
\<close>

definition heldViolet :: component3 where
  "heldViolet = pushed ''violet'' fiveViolet startedState"

definition pulledViolet :: component3 where
  "pulledViolet =
     snd (pollTick [] (Received module3Status) (Some [(''violet'', Arr threeViolet)]) heldViolet)"

definition heldRed :: "perspective list jsobject" where
  "heldRed = [(''red'', [item ''a'' ''red'', item ''b'' ''red''])]"

text \<open>A run whose first cache snapshot lists violet before red, with the chart mounted.\<close>

definition violetFirst :: component3 where
  "violetFirst =
     mountChart (snd (pollTick [] (Received module3Status)
       (Some [(''violet'', Arr [item ''v'' ''violet'']), (''red'', Arr [item ''r'' ''red''])])
       startedState))"

section \<open>The properties the specification names\<close>

text \<open>All perspective ids the state holds, over all colours.\<close>

definition idsOf :: "perspective list jsobject \<Rightarrow> string list" where
  "idsOf byColor = map pid (concat (map snd byColor))"

text \<open>The colours that are known and not revealed.\<close>

definition unrevealed :: "component3 \<Rightarrow> string list" where
  "unrevealed s = filter (\<lambda>c. c \<notin> set (revealedColors s)) (keys (perspectivesByColor s))"

text \<open>\<open>c\<close> is an unrevealed known colour of lowest position in the spectral order.\<close>

definition lowestUnrevealed :: "component3 \<Rightarrow> string \<Rightarrow> bool" where
  "lowestUnrevealed s c =
     (c \<in> set (unrevealed s) \<and> list_all (\<lambda>c'. idx c \<le> idx c') (unrevealed s))"

text \<open>The revealed sequence is a prefix of the known colours sorted in spectral order.\<close>

definition spectralPrefix :: "component3 \<Rightarrow> bool" where
  "spectralPrefix s =
     (revealedColors s =
        take (length (revealedColors s)) (sort_key idx (keys (perspectivesByColor s))))"

section \<open>Facts about objects\<close>

lemma lookup_assign: "lookup (assign k v obj) k' = (if k' = k then Some v else lookup obj k')"
  by (induction obj) (auto simp: lookup_def)

lemma keys_assign: "set (keys (assign k v obj)) = insert k (set (keys obj))"
proof (induction obj)
  case Nil
  show ?case by (simp add: keys_def)
next
  case (Cons a obj)
  then show ?case by (cases a) (auto simp: keys_def)
qed

lemma assign_assign: "assign k v (assign k w obj) = assign k v obj"
  by (induction obj) auto

lemma precedes_irrefl: "\<not> precedes k k"
  by (simp add: precedes_def split: option.splits)

lemma precedes_asym: "precedes k k' \<Longrightarrow> \<not> precedes k' k"
  by (auto simp: precedes_def split: option.splits)

lemma precedes_trans: "precedes x k \<Longrightarrow> precedes k k' \<Longrightarrow> precedes x k'"
  by (auto simp: precedes_def split: option.splits)

lemma keyOrdered_distinct: "keyOrdered obj \<Longrightarrow> distinct (keys obj)"
proof (induction obj)
  case Nil
  show ?case by (simp add: keys_def)
next
  case (Cons a obj)
  obtain k v where a: "a = (k, v)" by (cases a)
  from Cons.prems a have "\<forall>x\<in>set (keys obj). x \<noteq> k" and "keyOrdered obj"
    by (simp_all add: list_all_iff)
  with Cons.IH a show ?case by (auto simp: keys_def)
qed

lemma keyOrdered_assign: "keyOrdered obj \<Longrightarrow> keyOrdered (assign k v obj)"
proof (induction obj)
  case Nil
  show ?case by (simp add: keys_def)
next
  case (Cons a obj)
  obtain k' v' where a: "a = (k', v')" by (cases a)
  from Cons.prems a have front: "\<forall>x\<in>set (keys obj). x \<noteq> k' \<and> \<not> precedes x k'"
    and rest: "keyOrdered obj"
    by (simp_all add: list_all_iff)
  show ?case
  proof (cases "k' = k")
    case True
    with Cons.prems a show ?thesis by simp
  next
    case differ: False
    show ?thesis
    proof (cases "precedes k k'")
      case True
      have "x \<noteq> k \<and> \<not> precedes x k" if "x \<in> set (keys obj)" for x
      proof
        from front that have nx: "\<not> precedes x k'" by blast
        with True show "x \<noteq> k" by blast
        from nx True show "\<not> precedes x k" using precedes_trans by blast
      qed
      moreover have "k' \<noteq> k \<and> \<not> precedes k' k"
        using differ True precedes_asym by blast
      ultimately have "list_all (\<lambda>x. x \<noteq> k \<and> \<not> precedes x k) (keys ((k', v') # obj))"
        by (simp add: list_all_iff keys_def)
      with Cons.prems a differ True show ?thesis by simp
    next
      case False
      have "\<forall>x\<in>set (keys (assign k v obj)). x \<noteq> k' \<and> \<not> precedes x k'"
        using front differ False by (auto simp: keys_assign)
      moreover have "keyOrdered (assign k v obj)"
        using rest by (rule Cons.IH)
      ultimately show ?thesis
        using a differ False by (simp add: list_all_iff)
    qed
  qed
qed

lemma arrayIndex_letter: "digitValue ch = None \<Longrightarrow> arrayIndex (ch # rest) = None"
  by (simp add: arrayIndex_def)

lemma precedes_letter: "digitValue ch = None \<Longrightarrow> \<not> precedes (ch # rest) k'"
  by (simp add: precedes_def arrayIndex_letter)

lemma letters:
  "digitValue CHR ''r'' = None" "digitValue CHR ''v'' = None" "digitValue CHR ''b'' = None"
  by (simp_all add: digitValue_def)

lemma plain_names: "\<not> inherited ''red''" "\<not> inherited ''violet''"
  by (simp_all add: inherited_def objectPrototype_def)

lemma existingLength_plain:
  "\<not> inherited c \<Longrightarrow> existingLength byColor c = Some (length (existing byColor c))"
  by (simp add: existingLength_def existing_def inherited_def split: option.splits)

lemma reveal_idem: "reveal c (reveal c rc) = reveal c rc"
  by (simp add: reveal_def)

lemma keys_lookup: "k \<in> set (keys obj) \<longleftrightarrow> lookup obj k \<noteq> None"
  by (induction obj) (auto simp: keys_def lookup_def)

lemma lookup_Nil [simp]: "lookup [] k = None"
  by (simp add: lookup_def)

lemma lookup_store:
  "lookup (store c v obj) c' =
     (if c' = c \<and> c \<noteq> ''__proto__'' then Some v else lookup obj c')"
  by (simp add: store_def lookup_assign)

lemma keys_store:
  "set (keys (store c v obj)) =
     (if c = ''__proto__'' then set (keys obj) else insert c (set (keys obj)))"
  by (simp add: store_def keys_assign)

lemma chartFill_lookup:
  "lookup (chartFill cs byColor obj) c =
     (if c \<in> set cs \<and> c \<noteq> ''__proto__'' \<and> readMember byColor c \<noteq> None
      then readMember byColor c else lookup obj c)"
proof (induction cs arbitrary: obj)
  case Nil
  show ?case by simp
next
  case (Cons a cs)
  show ?case
  proof (cases "readMember byColor a")
    case None
    with Cons show ?thesis by auto
  next
    case (Some v)
    with Cons show ?thesis by (auto simp: lookup_store)
  qed
qed

lemma chartFill_keys:
  "set (keys (chartFill cs byColor obj)) =
     set (keys obj) \<union> {c \<in> set cs. c \<noteq> ''__proto__'' \<and> readMember byColor c \<noteq> None}"
proof (induction cs arbitrary: obj)
  case Nil
  show ?case by simp
next
  case (Cons a cs)
  show ?case
  proof (cases "readMember byColor a")
    case None
    with Cons show ?thesis by auto
  next
    case (Some v)
    with Cons show ?thesis by (auto simp: keys_store)
  qed
qed

section \<open>Facts about the cache snapshot\<close>

lemma cacheEntries_lookup:
  "lookup (cacheEntries captured cacheData prev) c = lookup prev c \<or>
   (\<exists>ps. ps \<noteq> [] \<and> (c, Arr ps) \<in> set cacheData \<and>
      lookup (cacheEntries captured cacheData prev) c = Some ps)"
proof (induction captured cacheData prev rule: cacheEntries.induct)
  case (1 captured prev)
  show ?case by simp
next
  case (2 captured k ps rest prev)
  define p where "p = (if length ps > 0 \<and> existingLength captured k \<noteq> Some (length ps)
        then assign k ps prev else prev)"
  have unfold: "cacheEntries captured ((k, Arr ps) # rest) prev = cacheEntries captured rest p"
    by (simp add: p_def)
  have step: "lookup p c = lookup prev c \<or> (ps \<noteq> [] \<and> k = c \<and> lookup p c = Some ps)"
    by (simp add: p_def lookup_assign)
  have ih: "lookup (cacheEntries captured rest p) c = lookup p c \<or>
   (\<exists>qs. qs \<noteq> [] \<and> (c, Arr qs) \<in> set rest \<and>
      lookup (cacheEntries captured rest p) c = Some qs)"
    using 2 by (simp add: p_def)
  from ih show ?case
  proof
    assume same: "lookup (cacheEntries captured rest p) c = lookup p c"
    from step show ?thesis
    proof
      assume "lookup p c = lookup prev c"
      with same unfold show ?thesis by simp
    next
      assume "ps \<noteq> [] \<and> k = c \<and> lookup p c = Some ps"
      with same unfold show ?thesis by (intro disjI2 exI [of _ ps]) simp
    qed
  next
    assume "\<exists>qs. qs \<noteq> [] \<and> (c, Arr qs) \<in> set rest \<and>
      lookup (cacheEntries captured rest p) c = Some qs"
    then obtain qs where "qs \<noteq> []" "(c, Arr qs) \<in> set rest"
      "lookup (cacheEntries captured rest p) c = Some qs" by blast
    with unfold show ?thesis by (intro disjI2 exI [of _ qs]) simp
  qed
next
  case (3 captured k rest prev)
  then show ?case by auto
qed

lemma cacheViolet_lookup:
  "lookup (cacheViolet cacheData prev) c = lookup prev c \<or>
   (\<exists>ps. ps \<noteq> [] \<and> (c, Arr ps) \<in> set cacheData \<and>
      lookup (cacheViolet cacheData prev) c = Some ps)"
proof -
  define k where "k = ''violet''"
  have cv: "cacheViolet cacheData prev =
     (case lookup cacheData k of
        Some (Arr ps) \<Rightarrow> if length ps > 0 then assign k ps prev else prev
      | Some NotArray \<Rightarrow> prev
      | None \<Rightarrow> prev)"
    unfolding cacheViolet_def k_def by (rule refl)
  show ?thesis
  proof (cases "lookup cacheData k")
    case None
    then show ?thesis by (simp add: cv)
  next
    case (Some v)
    show ?thesis
    proof (cases v)
      case NotArray
      with Some show ?thesis by (simp add: cv)
    next
      case (Arr ps)
      with Some have mem: "(k, Arr ps) \<in> set cacheData"
        by (simp add: lookup_def map_of_SomeD)
      have r: "cacheViolet cacheData prev = (if length ps > 0 then assign k ps prev else prev)"
        using Some Arr by (simp add: cv)
      show ?thesis
      proof (cases "ps \<noteq> [] \<and> c = k")
        case True
        then have "lookup (cacheViolet cacheData prev) c = Some ps"
          by (simp add: r lookup_assign)
        with True mem show ?thesis by blast
      next
        case False
        then have "lookup (cacheViolet cacheData prev) c = lookup prev c"
          by (auto simp: r lookup_assign)
        then show ?thesis by simp
      qed
    qed
  qed
qed

lemma applyCache_lookup:
  "lookup (applyCache captured cacheData prev) c = lookup prev c \<or>
   (\<exists>ps. ps \<noteq> [] \<and> (c, Arr ps) \<in> set cacheData \<and>
      lookup (applyCache captured cacheData prev) c = Some ps)"
proof -
  define mid where "mid = cacheEntries captured cacheData prev"
  have a: "applyCache captured cacheData prev = cacheViolet cacheData mid"
    by (simp add: applyCache_def mid_def)
  have v: "lookup (cacheViolet cacheData mid) c = lookup mid c \<or>
   (\<exists>ps. ps \<noteq> [] \<and> (c, Arr ps) \<in> set cacheData \<and>
      lookup (cacheViolet cacheData mid) c = Some ps)"
    by (rule cacheViolet_lookup)
  have e: "lookup mid c = lookup prev c \<or>
   (\<exists>ps. ps \<noteq> [] \<and> (c, Arr ps) \<in> set cacheData \<and> lookup mid c = Some ps)"
    unfolding mid_def by (rule cacheEntries_lookup)
  from v e show ?thesis unfolding a by metis
qed

section \<open>Properties of the push handler\<close>

text \<open>
  C4. Merging the same push message twice gives exactly the state that merging it once
  gives: the second delivery stores the same array under the same key, at the same
  position, and finds the colour already revealed. The handler used after a reconnect
  is idempotent in the same way.
\<close>

theorem wsOnMessage_idempotent:
  "wsOnMessage e (wsOnMessage e s) = wsOnMessage e s \<and>
   wsOnMessageReconnected e (wsOnMessageReconnected e s) = wsOnMessageReconnected e s"
proof (cases e)
  case Unparseable
  then show ?thesis by simp
next
  case (Data c v t)
  show ?thesis
  proof (cases v)
    case NotArray
    with Data show ?thesis by simp
  next
    case (Arr ps)
    show ?thesis
    proof (cases c)
      case None
      with Data Arr show ?thesis by simp
    next
      case (Some col)
      with Data Arr show ?thesis by (simp add: assign_assign reveal_idem)
    qed
  qed
qed

text \<open>
  C7. A message that is not perspective data (its text does not parse, its colour is
  missing or empty, or its payload is not an array) leaves the whole component state as
  it was, under both handlers: the per-colour perspectives are not modified and the
  stage does not become the error stage. No message at all, malformed or not, changes
  the stage or the recorded error.
\<close>

theorem malformed_event_dropped:
  "(\<not> isPerspectiveData e \<longrightarrow> wsOnMessage e s = s \<and> wsOnMessageReconnected e s = s) \<and>
   stage (wsOnMessage e s) = stage s \<and> error (wsOnMessage e s) = error s \<and>
   stage (wsOnMessageReconnected e s) = stage s \<and> error (wsOnMessageReconnected e s) = error s"
  by (induction e s rule: wsOnMessage.induct) auto

theorem malformed_event_dropped_witness:
  "\<not> isPerspectiveData (Data None (Arr [item ''a'' ''red'']) None) \<and>
   wsOnMessage (Data None (Arr [item ''a'' ''red'']) None) startedState = startedState \<and>
   wsOnMessageReconnected (Data None (Arr [item ''a'' ''red'']) None) startedState = startedState \<and>
   \<not> isPerspectiveData (Data (Some ''red'') NotArray None) \<and>
   wsOnMessage (Data (Some ''red'') NotArray None) startedState = startedState \<and>
   \<not> isPerspectiveData Unparseable \<and>
   wsOnMessage Unparseable startedState = startedState"
  using malformed_event_dropped [of "Data None (Arr [item ''a'' ''red'']) None" startedState]
    malformed_event_dropped [of "Data (Some ''red'') NotArray None" startedState]
    malformed_event_dropped [of Unparseable startedState]
  by simp

section \<open>Properties of the chart input\<close>

lemma chartPerspectives_revealed:
  "set (keys (chartPerspectives s)) \<subseteq> set (revealedColors s)
   \<and> (\<not> showChart s \<longrightarrow> chartPerspectives s = [])
   \<and> (\<forall>c ps. lookup (chartPerspectives s) c = Some (Held ps) \<longrightarrow>
        c \<in> set (revealedColors s) \<and> lookup (perspectivesByColor s) c = Some ps)
   \<and> (\<forall>c. c \<in> set (keys (chartPerspectives s)) \<and> \<not> inherited c \<longrightarrow>
        c \<in> set (keys (perspectivesByColor s)))"
proof -
  let ?fill = "chartFill (revealedColors s) (perspectivesByColor s) []"
  have k: "set (keys ?fill) =
      {c \<in> set (revealedColors s). c \<noteq> ''__proto__'' \<and>
         readMember (perspectivesByColor s) c \<noteq> None}"
    using chartFill_keys [of "revealedColors s" "perspectivesByColor s" "[]"]
    by (simp add: keys_def)
  have l: "lookup ?fill c = Some (Held ps) \<Longrightarrow>
      c \<in> set (revealedColors s) \<and> lookup (perspectivesByColor s) c = Some ps" for c ps
    by (auto simp: chartFill_lookup readMember_def split: if_splits option.splits)
  have h: "c \<in> set (keys ?fill) \<Longrightarrow> \<not> inherited c \<Longrightarrow>
      c \<in> set (keys (perspectivesByColor s))" for c
    unfolding k by (auto simp: readMember_def keys_lookup split: option.splits)
  have sub: "set (keys ?fill) \<subseteq> set (revealedColors s)"
    unfolding k by blast
  show ?thesis
    unfolding chartPerspectives_def using sub l h by (auto simp: keys_def)
qed

lemma constructorRevealed_eval:
  "chartPerspectives constructorRevealed = [(''constructor'', Member ''constructor'')]"
  by (simp add: chartPerspectives_def constructorRevealed_def initialState_def readMember_def
      lookup_def inherited_def objectPrototype_def store_def)

text \<open>
  C10 fails on the code. The colour constructor was revealed by a push message and the
  per-colour state no longer holds it (the results fetch replaced the object by one
  that holds red only). The memo reads \<open>perspectivesByColor['constructor']\<close>, finds
  the member every object inherits, which is truthy, and writes it to the chart object:
  the chart input has the key constructor, which is not a key of the per-colour state.
\<close>

theorem chart_input_holds_inherited_member:
  "showChart constructorRevealed \<and>
   revealedColors constructorRevealed = [''constructor''] \<and>
   keys (perspectivesByColor constructorRevealed) = [''red''] \<and>
   chartPerspectives constructorRevealed = [(''constructor'', Member ''constructor'')] \<and>
   \<not> set (keys (chartPerspectives constructorRevealed))
       \<subseteq> set (revealedColors constructorRevealed)
          \<inter> set (keys (perspectivesByColor constructorRevealed))"
  by (simp add: constructorRevealed_eval) (simp add: constructorRevealed_def initialState_def keys_def)

section \<open>Properties of the cache snapshot\<close>

lemma applyCaches_lookup:
  "lookup (applyCaches captured caches prev) c = lookup prev c \<or>
   (\<exists>cacheData ps. cacheData \<in> set caches \<and> ps \<noteq> [] \<and> (c, Arr ps) \<in> set cacheData \<and>
      lookup (applyCaches captured caches prev) c = Some ps)"
proof (induction caches arbitrary: prev)
  case Nil
  show ?case by simp
next
  case (Cons cd caches)
  define mid where "mid = applyCache captured cd prev"
  have u: "applyCaches captured (cd # caches) prev = applyCaches captured caches mid"
    by (simp add: mid_def)
  have ih: "lookup (applyCaches captured caches mid) c = lookup mid c \<or>
   (\<exists>cacheData ps. cacheData \<in> set caches \<and> ps \<noteq> [] \<and> (c, Arr ps) \<in> set cacheData \<and>
      lookup (applyCaches captured caches mid) c = Some ps)"
    by (rule Cons.IH)
  have st: "lookup mid c = lookup prev c \<or>
   (\<exists>ps. ps \<noteq> [] \<and> (c, Arr ps) \<in> set cd \<and> lookup mid c = Some ps)"
    unfolding mid_def by (rule applyCache_lookup)
  from ih show ?case
  proof
    assume same: "lookup (applyCaches captured caches mid) c = lookup mid c"
    from st show ?thesis
    proof
      assume "lookup mid c = lookup prev c"
      with same u show ?thesis by simp
    next
      assume "\<exists>ps. ps \<noteq> [] \<and> (c, Arr ps) \<in> set cd \<and> lookup mid c = Some ps"
      then obtain ps where "ps \<noteq> []" "(c, Arr ps) \<in> set cd" "lookup mid c = Some ps" by blast
      with same u show ?thesis
        by (intro disjI2 exI [of _ cd] exI [of _ ps]) simp
    qed
  next
    assume "\<exists>cacheData ps. cacheData \<in> set caches \<and> ps \<noteq> [] \<and> (c, Arr ps) \<in> set cacheData \<and>
      lookup (applyCaches captured caches mid) c = Some ps"
    then obtain cacheData ps where "cacheData \<in> set caches" "ps \<noteq> []"
      "(c, Arr ps) \<in> set cacheData" "lookup (applyCaches captured caches mid) c = Some ps"
      by blast
    with u show ?thesis
      by (intro disjI2 exI [of _ cacheData] exI [of _ ps]) simp
  qed
qed

lemma cacheEntries_untouched:
  "c \<notin> set (keys cacheData) \<Longrightarrow> lookup (cacheEntries captured cacheData prev) c = lookup prev c"
  by (induction captured cacheData prev rule: cacheEntries.induct)
    (simp_all add: keys_def lookup_assign)

lemma cacheEntries_exact:
  "distinct (keys cacheData) \<Longrightarrow>
     lookup (cacheEntries captured cacheData prev) c =
       (case lookup cacheData c of
          Some (Arr new) \<Rightarrow>
            if new \<noteq> [] \<and> existingLength captured c \<noteq> Some (length new)
            then Some new else lookup prev c
        | Some NotArray \<Rightarrow> lookup prev c
        | None \<Rightarrow> lookup prev c)"
proof (induction captured cacheData prev rule: cacheEntries.induct)
  case (1 captured prev)
  show ?case by simp
next
  case (2 captured k ps rest prev)
  define p where "p = (if length ps > 0 \<and> existingLength captured k \<noteq> Some (length ps)
        then assign k ps prev else prev)"
  have unfold: "cacheEntries captured ((k, Arr ps) # rest) prev = cacheEntries captured rest p"
    by (simp add: p_def)
  from "2.prems" have d: "distinct (keys rest)" and fresh: "k \<notin> set (keys rest)"
    by (simp_all add: keys_def)
  show ?case
  proof (cases "c = k")
    case True
    have "lookup (cacheEntries captured rest p) c = lookup p c"
      using fresh True by (simp add: cacheEntries_untouched)
    moreover have "lookup p c =
        (if ps \<noteq> [] \<and> existingLength captured c \<noteq> Some (length ps)
         then Some ps else lookup prev c)"
      using True by (simp add: p_def lookup_assign)
    moreover have "lookup ((k, Arr ps) # rest) c = Some (Arr ps)"
      using True by (simp add: lookup_def)
    ultimately show ?thesis unfolding unfold by simp
  next
    case False
    have ih: "lookup (cacheEntries captured rest p) c =
       (case lookup rest c of
          Some (Arr new) \<Rightarrow>
            if new \<noteq> [] \<and> existingLength captured c \<noteq> Some (length new)
            then Some new else lookup p c
        | Some NotArray \<Rightarrow> lookup p c
        | None \<Rightarrow> lookup p c)"
      unfolding p_def by (rule "2.IH" [OF d])
    have same: "lookup p c = lookup prev c"
      using False by (simp add: p_def lookup_assign)
    have look: "lookup ((k, Arr ps) # rest) c = lookup rest c"
      using False by (simp add: lookup_def)
    show ?thesis unfolding unfold ih same look ..
  qed
next
  case (3 captured k rest prev)
  from "3.prems" have d: "distinct (keys rest)" and fresh: "k \<notin> set (keys rest)"
    by (simp_all add: keys_def)
  show ?case
  proof (cases "c = k")
    case True
    then have "lookup (cacheEntries captured rest prev) c = lookup prev c"
      using fresh by (simp add: cacheEntries_untouched)
    moreover have "lookup ((k, NotArray) # rest) c = Some NotArray"
      using True by (simp add: lookup_def)
    ultimately show ?thesis by simp
  next
    case False
    then have "lookup ((k, NotArray) # rest) c = lookup rest c"
      by (simp add: lookup_def)
    with "3.IH" [OF d] show ?thesis by simp
  qed
qed

lemma cacheViolet_exact:
  "lookup (cacheViolet cacheData mid) c =
     (case lookup cacheData c of
        Some (Arr new) \<Rightarrow> if new \<noteq> [] \<and> c = ''violet'' then Some new else lookup mid c
      | Some NotArray \<Rightarrow> lookup mid c
      | None \<Rightarrow> lookup mid c)"
proof -
  define k where "k = ''violet''"
  have cv: "cacheViolet cacheData mid =
     (case lookup cacheData k of
        Some (Arr ps) \<Rightarrow> if length ps > 0 then assign k ps mid else mid
      | Some NotArray \<Rightarrow> mid
      | None \<Rightarrow> mid)"
    unfolding cacheViolet_def k_def by (rule refl)
  have goal: "lookup (cacheViolet cacheData mid) c =
     (case lookup cacheData c of
        Some (Arr new) \<Rightarrow> if new \<noteq> [] \<and> c = k then Some new else lookup mid c
      | Some NotArray \<Rightarrow> lookup mid c
      | None \<Rightarrow> lookup mid c)"
  proof (cases "c = k")
    case True
    then show ?thesis
      by (simp add: cv lookup_assign split: option.splits jsvalue.splits)
  next
    case False
    then have "lookup (cacheViolet cacheData mid) c = lookup mid c"
      by (simp add: cv lookup_assign split: option.splits jsvalue.splits)
    with False show ?thesis
      by (simp split: option.splits jsvalue.splits)
  qed
  then show ?thesis unfolding k_def .
qed

lemma applyCache_exact:
  assumes "distinct (keys cacheData)"
  shows "lookup (applyCache captured cacheData prev) c =
       (case lookup cacheData c of
          Some (Arr new) \<Rightarrow>
            if new \<noteq> [] \<and> (existingLength captured c \<noteq> Some (length new) \<or> c = ''violet'')
            then Some new else lookup prev c
        | Some NotArray \<Rightarrow> lookup prev c
        | None \<Rightarrow> lookup prev c)"
proof -
  define v where "v = (c = ''violet'')"
  define mid where "mid = cacheEntries captured cacheData prev"
  have m: "lookup mid c =
       (case lookup cacheData c of
          Some (Arr new) \<Rightarrow>
            if new \<noteq> [] \<and> existingLength captured c \<noteq> Some (length new)
            then Some new else lookup prev c
        | Some NotArray \<Rightarrow> lookup prev c
        | None \<Rightarrow> lookup prev c)"
    unfolding mid_def using assms by (rule cacheEntries_exact)
  have a: "lookup (applyCache captured cacheData prev) c =
     (case lookup cacheData c of
        Some (Arr new) \<Rightarrow> if new \<noteq> [] \<and> v then Some new else lookup mid c
      | Some NotArray \<Rightarrow> lookup mid c
      | None \<Rightarrow> lookup mid c)"
    unfolding applyCache_def mid_def v_def by (rule cacheViolet_exact)
  have "lookup (applyCache captured cacheData prev) c =
       (case lookup cacheData c of
          Some (Arr new) \<Rightarrow>
            if new \<noteq> [] \<and> (existingLength captured c \<noteq> Some (length new) \<or> v)
            then Some new else lookup prev c
        | Some NotArray \<Rightarrow> lookup prev c
        | None \<Rightarrow> lookup prev c)"
    unfolding a m by (simp split: option.splits jsvalue.splits)
  then show ?thesis unfolding v_def .
qed

lemma startedState_eval:
  "startedState = initialState\<lparr>stage := ''queued'', wsRef := True\<rparr>"
  by (simp add: startedState_def startPipeline_def initialState_def resetRun_def)

lemma heldViolet_eval:
  "perspectivesByColor heldViolet = [(''violet'', fiveViolet)]"
  by (simp add: heldViolet_def pushed_def startedState_eval initialState_def)

lemma pulledViolet_eval:
  "perspectivesByColor pulledViolet = [(''violet'', threeViolet)]"
  by (simp add: pulledViolet_def pollTick_def statusAndCache_def cacheDue_def module3Status_def
      heldViolet_eval applyCache_def cacheViolet_def lookup_def existing_def threeViolet_def
      existingLength_plain plain_names)

text \<open>
  C1 as stated fails. A run holds five violet perspectives received by push; the next
  poll, in stage module3, fetches a cache with three violet perspectives, and the
  callback stores the three: the held count drops from five to three. The same happens
  for a colour without the violet special case when the callback compares with the
  held list itself: two red perspectives are replaced by a snapshot of one.
\<close>

theorem snapshot_pull_shrinks:
  "length (existing (perspectivesByColor heldViolet) ''violet'') = 5 \<and>
   length (existing (perspectivesByColor pulledViolet) ''violet'') = 3 \<and>
   \<not> length (existing (perspectivesByColor heldViolet) ''violet'')
       \<le> length (existing (perspectivesByColor pulledViolet) ''violet'') \<and>
   length (existing heldRed ''red'') = 2 \<and>
   length (existing (applyCache heldRed [(''red'', Arr [item ''a'' ''red''])] heldRed) ''red'') = 1"
  by (simp add: heldViolet_eval pulledViolet_eval existing_def lookup_def fiveViolet_def
      threeViolet_def heldRed_def applyCache_def cacheViolet_def existingLength_plain
      plain_names)

text \<open>
  C1 as amended. Under any sequence of cache snapshots handled by one polling interval,
  a colour that is held stays held, and the list held for it afterwards is either the
  list held before or a non-empty array that one of the snapshots reported for that
  colour; so the count of a colour that holds at least one perspective never drops to
  zero. One snapshot (an object, so with distinct keys) sets a colour, other than a
  name every object inherits, to the array it reports for that colour exactly when the
  array is not empty and its length differs from the length of the list the callback's
  captured state holds for the colour, or the colour is violet; in every other case
  the colour is left as it was. Whether the array has fewer items than are held plays
  no part: a shorter array that meets the condition is applied, not ignored.
\<close>

theorem snapshot_pulls_keep_groups:
  "(lookup prev c = Some ps \<longrightarrow>
      (\<exists>qs. lookup (applyCaches captured caches prev) c = Some qs \<and>
          (qs = ps \<or> (qs \<noteq> [] \<and> (\<exists>cacheData \<in> set caches. (c, Arr qs) \<in> set cacheData))) \<and>
          (0 < length ps \<longrightarrow> 0 < length qs))) \<and>
   (distinct (keys snapshot) \<and> \<not> inherited c \<longrightarrow>
      lookup (applyCache captured snapshot prev) c =
        (case lookup snapshot c of
           Some (Arr new) \<Rightarrow>
             if new \<noteq> [] \<and> (length (existing captured c) \<noteq> length new \<or> c = ''violet'')
             then Some new else lookup prev c
         | Some NotArray \<Rightarrow> lookup prev c
         | None \<Rightarrow> lookup prev c))"
proof
  show "lookup prev c = Some ps \<longrightarrow>
      (\<exists>qs. lookup (applyCaches captured caches prev) c = Some qs \<and>
          (qs = ps \<or> (qs \<noteq> [] \<and> (\<exists>cacheData \<in> set caches. (c, Arr qs) \<in> set cacheData))) \<and>
          (0 < length ps \<longrightarrow> 0 < length qs))"
    using applyCaches_lookup [of captured caches prev c] by auto
next
  show "distinct (keys snapshot) \<and> \<not> inherited c \<longrightarrow>
      lookup (applyCache captured snapshot prev) c =
        (case lookup snapshot c of
           Some (Arr new) \<Rightarrow>
             if new \<noteq> [] \<and> (length (existing captured c) \<noteq> length new \<or> c = ''violet'')
             then Some new else lookup prev c
         | Some NotArray \<Rightarrow> lookup prev c
         | None \<Rightarrow> lookup prev c)"
  proof
    assume h: "distinct (keys snapshot) \<and> \<not> inherited c"
    then have e: "existingLength captured c = Some (length (existing captured c))"
      by (simp add: existingLength_plain)
    from h have "distinct (keys snapshot)" ..
    from applyCache_exact [OF this, of captured prev c]
    show "lookup (applyCache captured snapshot prev) c =
        (case lookup snapshot c of
           Some (Arr new) \<Rightarrow>
             if new \<noteq> [] \<and> (length (existing captured c) \<noteq> length new \<or> c = ''violet'')
             then Some new else lookup prev c
         | Some NotArray \<Rightarrow> lookup prev c
         | None \<Rightarrow> lookup prev c)"
      unfolding e by (simp split: option.splits jsvalue.splits)
  qed
qed

theorem snapshot_pulls_keep_groups_witness:
  "lookup [(''violet'', fiveViolet)] ''violet'' = Some fiveViolet \<and>
   (\<exists>qs. lookup (applyCaches [] [[(''violet'', Arr threeViolet)]] [(''violet'', fiveViolet)])
            ''violet'' = Some qs \<and> 0 < length qs) \<and>
   distinct (keys [(''red'', Arr [item ''a'' ''red''])]) \<and> \<not> inherited ''red'' \<and>
   lookup (applyCache heldRed [(''red'', Arr [item ''a'' ''red''])] heldRed) ''red'' =
     Some [item ''a'' ''red'']"
proof -
  have h: "lookup [(''violet'', fiveViolet)] ''violet'' = Some fiveViolet"
    by (simp add: lookup_def)
  have n: "0 < length fiveViolet"
    by (simp add: fiveViolet_def)
  have d: "distinct (keys [(''red'', Arr [item ''a'' ''red''])])" "\<not> inherited ''red''"
    by (simp_all add: keys_def plain_names)
  have l: "lookup [(''red'', Arr [item ''a'' ''red''])] ''red'' = Some (Arr [item ''a'' ''red''])"
    "length (existing heldRed ''red'') = 2"
    by (simp_all add: lookup_def existing_def heldRed_def)
  from snapshot_pulls_keep_groups
    [where prev = "[(''violet'', fiveViolet)]" and c = "''violet''" and ps = fiveViolet
      and captured = "[]" and caches = "[[(''violet'', Arr threeViolet)]]"]
    h n
  have first: "\<exists>qs. lookup (applyCaches [] [[(''violet'', Arr threeViolet)]]
      [(''violet'', fiveViolet)]) ''violet'' = Some qs \<and> 0 < length qs"
    by blast
  from snapshot_pulls_keep_groups
    [where prev = heldRed and c = "''red''" and captured = heldRed
      and snapshot = "[(''red'', Arr [item ''a'' ''red''])]"] d l
  have second: "lookup (applyCache heldRed [(''red'', Arr [item ''a'' ''red''])] heldRed) ''red'' =
     Some [item ''a'' ''red'']"
    by simp
  from h first d second show ?thesis by blast
qed

section \<open>Properties of the push merge\<close>

text \<open>
  C2 as stated fails. A push for red with perspective a, then a push for red with
  perspective b, leaves only b under red: the second array replaces the first, it is
  not appended. A push whose array names the id a twice is stored as it is, so the id
  occurs twice in the state: no deduplication by id takes place.
\<close>

theorem push_replaces_not_appends:
  "item ''a'' ''red'' \<in> set (existing (perspectivesByColor
       (pushed ''red'' [item ''a'' ''red''] startedState)) ''red'') \<and>
   item ''a'' ''red'' \<notin> set (existing (perspectivesByColor
       (pushed ''red'' [item ''b'' ''red''] (pushed ''red'' [item ''a'' ''red''] startedState))) ''red'') \<and>
   \<not> distinct (idsOf (perspectivesByColor
       (pushed ''red'' [item ''a'' ''red'', item ''a'' ''red''] startedState)))"
  by (simp add: pushed_def startedState_eval initialState_def existing_def lookup_def idsOf_def
      item_def)

text \<open>
  C2 as amended. Merging a push message with a non-empty colour replaces the list held
  for that colour by the array of the message, exactly as delivered, and leaves every
  other colour as it was; the ids held for the colour are those of the array, in its
  order. Delivering the same message again changes nothing.
\<close>

theorem push_replaces_group:
  "c \<noteq> [] \<Longrightarrow>
     lookup (perspectivesByColor (wsOnMessage (Data (Some c) (Arr ps) t) s)) c = Some ps \<and>
     (\<forall>c'. c' \<noteq> c \<longrightarrow>
        lookup (perspectivesByColor (wsOnMessage (Data (Some c) (Arr ps) t) s)) c' =
        lookup (perspectivesByColor s) c') \<and>
     map pid (existing (perspectivesByColor (wsOnMessage (Data (Some c) (Arr ps) t) s)) c) =
        map pid ps \<and>
     wsOnMessage (Data (Some c) (Arr ps) t) (wsOnMessage (Data (Some c) (Arr ps) t) s) =
        wsOnMessage (Data (Some c) (Arr ps) t) s"
  by (simp add: lookup_assign existing_def assign_assign reveal_idem)

theorem push_replaces_group_witness:
  "''red'' \<noteq> [] \<and>
   lookup (perspectivesByColor
     (wsOnMessage (Data (Some ''red'') (Arr [item ''b'' ''red'']) None)
        (pushed ''red'' [item ''a'' ''red''] startedState))) ''red'' = Some [item ''b'' ''red'']"
  using push_replaces_group [of "''red''" "[item ''b'' ''red'']" None
      "pushed ''red'' [item ''a'' ''red''] startedState"]
  by simp

section \<open>Properties of the reveal\<close>

lemma idx_red: "idx ''red'' = 0"
  by (simp add: idx_def order_colors_def)

lemma idx_violet: "idx ''violet'' = 7"
  by (simp add: idx_def order_colors_def)

lemma violetFirst_eval:
  "violetFirst = initialState\<lparr>stage := ''module3'', progress := 50, wsRef := True,
     perspectivesByColor := [(''violet'', [item ''v'' ''violet'']), (''red'', [item ''r'' ''red''])],
     showChart := True\<rparr>"
  by (simp add: violetFirst_def mountChart_def pollTick_def statusAndCache_def cacheDue_def
      module3Status_def startedState_eval initialState_def applyCache_def cacheViolet_def
      lookup_def existing_def keys_def existingLength_plain plain_names precedes_letter
      letters)

lemma some_key_unrevealed:
  assumes "distinct ks" "length rc < length ks"
  shows "filter (\<lambda>c. c \<notin> set rc) ks \<noteq> []"
proof
  assume "filter (\<lambda>c. c \<notin> set rc) ks = []"
  then have "set ks \<subseteq> set rc" by (auto simp: filter_empty_conv)
  then have "card (set ks) \<le> card (set rc)" by (simp add: card_mono)
  also have "\<dots> \<le> length rc" by (rule card_length)
  finally have "card (set ks) \<le> length rc" .
  with assms show False by (simp add: distinct_card)
qed

text \<open>
  C3 as stated fails. A cache snapshot lists violet before red, so the state's keys are
  violet, red; with the chart mounted and nothing revealed, red is the unrevealed colour
  of lowest spectral position, yet the reveal effect reveals violet. On the push channel
  a violet message followed by a red message reveals violet, then red. In both runs the
  revealed sequence is not a prefix of the known colours in spectral order.
\<close>

theorem reveal_in_arrival_order:
  "lowestUnrevealed violetFirst ''red'' \<and>
   revealedColors (progressiveReveal violetFirst) = [''violet''] \<and>
   \<not> spectralPrefix (progressiveReveal violetFirst) \<and>
   revealedColors (pushed ''red'' [item ''r'' ''red'']
       (pushed ''violet'' [item ''v'' ''violet''] startedState)) = [''violet'', ''red''] \<and>
   \<not> spectralPrefix (pushed ''red'' [item ''r'' ''red'']
       (pushed ''violet'' [item ''v'' ''violet''] startedState))"
  by (simp add: violetFirst_eval lowestUnrevealed_def unrevealed_def initialState_def keys_def
      idx_red idx_violet progressiveReveal_def nextColor_def reveal_def spectralPrefix_def
      pushed_def startedState_eval)

text \<open>
  C3 as amended. Whenever the chart is mounted and fewer colours are revealed than are
  known, the reveal effect picks the first key of the per-colour state, in the order of
  \<open>Object.keys\<close> (for colour names that are not array indices the order of arrival,
  not the spectral order), that is not yet revealed: every key before it is revealed
  already. If that key is not the empty string, the effect appends it to the revealed
  sequence. A push message with a non-empty colour that the handler installed by
  \<open>startPipeline\<close> receives appends its colour to the revealed sequence on arrival,
  unless it is there already.
\<close>

theorem reveal_first_unrevealed_key:
  assumes "showChart s" and "distinct (keys (perspectivesByColor s))"
    and "length (revealedColors s) < length (keys (perspectivesByColor s))"
  shows "(\<exists>pre next post.
     keys (perspectivesByColor s) = pre @ next # post \<and>
     set pre \<subseteq> set (revealedColors s) \<and> next \<notin> set (revealedColors s) \<and>
     (next \<noteq> [] \<longrightarrow>
        nextColor s = Some next \<and>
        revealedColors (progressiveReveal s) = revealedColors s @ [next])) \<and>
   (c \<noteq> [] \<longrightarrow>
      revealedColors (wsOnMessage (Data (Some c) (Arr ps) t) s') =
        (if c \<in> set (revealedColors s') then revealedColors s' else revealedColors s' @ [c]))"
proof -
  let ?ks = "keys (perspectivesByColor s)"
  let ?rc = "revealedColors s"
  from assms have "filter (\<lambda>c. c \<notin> set ?rc) ?ks \<noteq> []"
    by (intro some_key_unrevealed)
  then obtain n others where f: "filter (\<lambda>c. c \<notin> set ?rc) ?ks = n # others"
    by (cases "filter (\<lambda>c. c \<notin> set ?rc) ?ks") auto
  then obtain pre post where
    split: "?ks = pre @ n # post" "\<forall>u\<in>set pre. \<not> u \<notin> set ?rc" "n \<notin> set ?rc"
    unfolding filter_eq_Cons_iff by blast
  from assms(3) have pos: "length ?ks \<noteq> 0" "\<not> length ?ks \<le> length ?rc" by auto
  have nc: "nextColor s = Some n" if "n \<noteq> []"
    using assms(1) pos f that by (simp add: nextColor_def Let_def)
  have pr: "revealedColors (progressiveReveal s) = ?rc @ [n]" if "n \<noteq> []"
    using assms(1) pos nc [OF that] split(3) by (simp add: progressiveReveal_def reveal_def)
  have ws: "c \<noteq> [] \<longrightarrow>
      revealedColors (wsOnMessage (Data (Some c) (Arr ps) t) s') =
        (if c \<in> set (revealedColors s') then revealedColors s' else revealedColors s' @ [c])"
    by (simp add: reveal_def)
  from split nc pr have "\<exists>pre next post.
     keys (perspectivesByColor s) = pre @ next # post \<and>
     set pre \<subseteq> set (revealedColors s) \<and> next \<notin> set (revealedColors s) \<and>
     (next \<noteq> [] \<longrightarrow>
        nextColor s = Some next \<and>
        revealedColors (progressiveReveal s) = revealedColors s @ [next])"
    by blast
  with ws show ?thesis by (rule conjI [rotated])
qed

theorem reveal_first_unrevealed_key_witness:
  "showChart chartState \<and> distinct (keys (perspectivesByColor chartState)) \<and>
   length (revealedColors chartState) < length (keys (perspectivesByColor chartState)) \<and>
   (\<exists>pre next post.
     keys (perspectivesByColor chartState) = pre @ next # post \<and>
     set pre \<subseteq> set (revealedColors chartState) \<and> next \<notin> set (revealedColors chartState) \<and>
     (next \<noteq> [] \<longrightarrow>
        nextColor chartState = Some next \<and>
        revealedColors (progressiveReveal chartState) = revealedColors chartState @ [next])) \<and>
   nextColor chartState = Some ''blue'' \<and>
   revealedColors (progressiveReveal chartState) = [''red'', ''blue''] \<and>
   ''violet'' \<noteq> [] \<and>
   revealedColors (wsOnMessage (Data (Some ''violet'') (Arr []) None) chartState) =
     [''red'', ''violet'']"
proof -
  have h: "showChart chartState" "distinct (keys (perspectivesByColor chartState))"
    "length (revealedColors chartState) < length (keys (perspectivesByColor chartState))"
    by (simp_all add: chartState_def initialState_def keys_def)
  have r: "revealedColors chartState = [''red'']"
    by (simp add: chartState_def)
  have n: "nextColor chartState = Some ''blue''"
    by (simp add: nextColor_def chartState_def initialState_def keys_def)
  have p: "revealedColors (progressiveReveal chartState) = [''red'', ''blue'']"
    using n by (simp add: progressiveReveal_def reveal_def chartState_def initialState_def keys_def)
  from reveal_first_unrevealed_key [OF h, of "''violet''" "[]" None chartState] h r n p
  show ?thesis by simp
qed

section \<open>Properties of the run controller\<close>

text \<open>
  C6. A start request in any stage other than idle, error and done returns without a
  request and without a change of state. In those three stages the per-colour state and
  the revealed sequence are emptied, results are cleared, progress is 0 and the stage
  is queued; when the socket is created the error is cleared, the only requests are the
  closing of an old socket and the opening of the new one, and polling is as it was.
  The run trigger is not among the requests of the start: it is sent by the socket's
  open handler, and polling begins with the successful answer to it. When creating the
  socket throws, that error is recorded and polling begins at once.
\<close>

theorem startPipeline_contract:
  "(stage s \<noteq> ''idle'' \<and> stage s \<noteq> ''error'' \<and> stage s \<noteq> ''done'' \<longrightarrow>
      startPipeline w s = ([], s)) \<and>
   (stage s = ''idle'' \<or> stage s = ''error'' \<or> stage s = ''done'' \<longrightarrow>
      perspectivesByColor (snd (startPipeline w s)) = [] \<and>
      revealedColors (snd (startPipeline w s)) = [] \<and>
      results (snd (startPipeline w s)) = None \<and>
      progress (snd (startPipeline w s)) = 0 \<and>
      stage (snd (startPipeline w s)) = ''queued'' \<and>
      PostRun \<notin> set (fst (startPipeline w s)) \<and>
      (w = None \<longrightarrow>
         error (snd (startPipeline w s)) = None \<and>
         fst (startPipeline w s) = (if wsRef s then [CloseSocket] else []) @ [OpenSocket] \<and>
         wsRef (snd (startPipeline w s)) \<and>
         polling (snd (startPipeline w s)) = polling s) \<and>
      (\<forall>msg. w = Some msg \<longrightarrow>
         error (snd (startPipeline w s)) = Some (''WebSocket initialization error: '' @ msg) \<and>
         polling (snd (startPipeline w s)))) \<and>
   wsOnOpen s' = ([PostRun], s') \<and>
   runResponse (Received (True, code)) s' = s'\<lparr>polling := True\<rparr>"
  by (cases w) (auto simp: startPipeline_def resetRun_def beginPolling_def wsOnOpen_def
      runResponse_def Let_def)

theorem startPipeline_contract_witness:
  "stage initialState = ''idle'' \<and>
   startPipeline None initialState = ([OpenSocket], initialState\<lparr>stage := ''queued'', wsRef := True\<rparr>) \<and>
   stage chartState = ''idle'' \<and> perspectivesByColor chartState \<noteq> [] \<and>
   perspectivesByColor (snd (startPipeline None chartState)) = [] \<and>
   revealedColors (snd (startPipeline None chartState)) = [] \<and>
   error (snd (startPipeline (Some ''bad url'') chartState)) =
     Some ''WebSocket initialization error: bad url'' \<and>
   stage (snd (startPipeline None initialState)) \<noteq> ''idle'' \<and>
   stage (snd (startPipeline None initialState)) \<noteq> ''error'' \<and>
   stage (snd (startPipeline None initialState)) \<noteq> ''done'' \<and>
   startPipeline None (snd (startPipeline None initialState)) =
     ([], snd (startPipeline None initialState))"
  using startPipeline_contract [of chartState None]
    startPipeline_contract [of chartState "Some ''bad url''"]
    startPipeline_contract [of "snd (startPipeline None initialState)" None]
  by (simp add: startPipeline_def initialState_def resetRun_def chartState_def)

text \<open>
  C9. When a polled status carries an error, the callback sends no request, stops the
  polling interval, records the error and sets the stage to error; this transition
  leaves the per-colour perspectives as the callback held them just before it, and
  never clears them: they equal the perspectives before the tick unless the same tick
  first applied a cache snapshot (stage module3 with positive progress), and every
  colour held before the tick is still held, non-empty if it was non-empty.
\<close>

theorem poll_error_keeps_perspectives:
  "truthy (st_error d) \<Longrightarrow>
     pollTick captured (Received d) cacheRes s =
       ([], (statusAndCache captured d cacheRes s)
              \<lparr>error := st_error d, polling := False, stage := ''error''\<rparr>) \<and>
     polling (snd (pollTick captured (Received d) cacheRes s)) = False \<and>
     error (snd (pollTick captured (Received d) cacheRes s)) = st_error d \<and>
     stage (snd (pollTick captured (Received d) cacheRes s)) = ''error'' \<and>
     perspectivesByColor (snd (pollTick captured (Received d) cacheRes s)) =
       perspectivesByColor (statusAndCache captured d cacheRes s) \<and>
     (\<not> cacheDue d \<or> cacheRes = None \<longrightarrow>
        perspectivesByColor (snd (pollTick captured (Received d) cacheRes s)) =
          perspectivesByColor s) \<and>
     (\<forall>c ps. lookup (perspectivesByColor s) c = Some ps \<longrightarrow>
        (\<exists>qs. lookup (perspectivesByColor (snd (pollTick captured (Received d) cacheRes s))) c
                = Some qs \<and> (ps \<noteq> [] \<longrightarrow> qs \<noteq> [])))"
proof -
  assume e: "truthy (st_error d)"
  have t: "pollTick captured (Received d) cacheRes s =
       ([], (statusAndCache captured d cacheRes s)
              \<lparr>error := st_error d, polling := False, stage := ''error''\<rparr>)"
    using e by (simp add: pollTick_def Let_def)
  have same: "\<not> cacheDue d \<or> cacheRes = None \<Longrightarrow>
     perspectivesByColor (statusAndCache captured d cacheRes s) = perspectivesByColor s"
    by (auto simp: statusAndCache_def Let_def)
  have kept: "\<exists>qs. lookup (perspectivesByColor (statusAndCache captured d cacheRes s)) c = Some qs
      \<and> (ps \<noteq> [] \<longrightarrow> qs \<noteq> [])"
    if l: "lookup (perspectivesByColor s) c = Some ps" for c ps
  proof (cases "cacheDue d \<and> cacheRes \<noteq> None")
    case False
    then have "perspectivesByColor (statusAndCache captured d cacheRes s) = perspectivesByColor s"
      using same by blast
    with l show ?thesis by simp
  next
    case True
    then obtain cd where cd: "cacheRes = Some cd" by blast
    with True have p: "perspectivesByColor (statusAndCache captured d cacheRes s) =
        applyCache captured cd (perspectivesByColor s)"
      by (simp add: statusAndCache_def Let_def)
    from applyCache_lookup [of captured cd "perspectivesByColor s" c] l
    show ?thesis unfolding p by auto
  qed
  show ?thesis using t same kept by simp
qed

theorem poll_error_keeps_perspectives_witness:
  "truthy (st_error errorStatus) \<and>
   pollTick [] (Received errorStatus) None (chartState\<lparr>polling := True\<rparr>) =
     ([], chartState\<lparr>stage := ''error'', progress := 40, error := Some ''boom'', polling := False\<rparr>)"
proof -
  have h: "truthy (st_error errorStatus)" by (simp add: errorStatus_def)
  from poll_error_keeps_perspectives [OF h, of "[]" None "chartState\<lparr>polling := True\<rparr>"] h
  show ?thesis
    by (simp add: errorStatus_def statusAndCache_def cacheDue_def chartState_def initialState_def)
qed


section \<open>Properties of the quota allocator\<close>

lemma selectBest_mem: "selectBest better cur cs \<in> fst ` set (cur # cs)"
  by (induction cs arbitrary: cur) (auto split: if_splits)

lemma pick_Some:
  assumes "pick d qs = Some i"
  shows "i < length qs \<and> inRange d (qs ! i)"
proof -
  let ?cands = "filter (\<lambda>c. inRange d (snd c)) (enumerate 0 qs)"
  from assms obtain c cs where cands: "?cands = c # cs"
    and i: "i = selectBest (if d > 0 then (\<lambda>x y. x > y) else (\<lambda>x y. x < y)) c cs"
    by (auto simp: pick_def split: list.splits)
  have "i \<in> fst ` set (c # cs)"
    unfolding i by (rule selectBest_mem)
  then obtain a where "(i, a) \<in> set ?cands"
    unfolding cands by force
  then have "(i, a) \<in> set (enumerate 0 qs)" "inRange d a"
    by auto
  then show ?thesis
    by (auto simp: in_set_enumerate_eq)
qed

lemma pick_None:
  assumes "pick d qs = None"
  shows "\<forall>a\<in>set qs. \<not> inRange d a"
proof
  fix a assume "a \<in> set qs"
  then obtain i where "i < length qs" "qs ! i = a"
    by (auto simp: in_set_conv_nth)
  then have m: "(i, a) \<in> set (enumerate 0 qs)"
    by (auto simp: in_set_enumerate_eq)
  from assms have "filter (\<lambda>c. inRange d (snd c)) (enumerate 0 qs) = []"
    by (auto simp: pick_def split: list.splits)
  with m show "\<not> inRange d a"
    by (auto simp: filter_empty_conv)
qed

lemma sum_list_update_int:
  fixes xs :: "int list"
  shows "i < length xs \<Longrightarrow> sum_list (xs[i := v]) = sum_list xs + v - xs ! i"
proof (induction xs arbitrary: i)
  case Nil
  then show ?case by simp
next
  case (Cons x xs)
  then show ?case by (cases i) auto
qed

lemma sum_adjust:
  assumes "i < length qs"
  shows "sum_list (map a_quota (adjust i d qs)) = sum_list (map a_quota qs) + d"
proof -
  have "map a_quota (adjust i d qs) = (map a_quota qs)[i := a_quota (qs ! i) + d]"
    by (simp add: adjust_def map_update)
  moreover have "sum_list ((map a_quota qs)[i := a_quota (qs ! i) + d]) =
      sum_list (map a_quota qs) + (a_quota (qs ! i) + d) - (map a_quota qs) ! i"
    using assms by (intro sum_list_update_int) simp
  ultimately show ?thesis using assms by simp
qed

lemma sizes_adjust: "map a_size (adjust i d qs) = map a_size qs"
proof (rule nth_equalityI)
  show "length (map a_size (adjust i d qs)) = length (map a_size qs)"
    by (simp add: adjust_def)
next
  fix j assume "j < length (map a_size (adjust i d qs))"
  then have "j < length qs" by (simp add: adjust_def)
  then show "map a_size (adjust i d qs) ! j = map a_size qs ! j"
    by (cases "i = j") (simp_all add: adjust_def)
qed

lemma bands_adjust: "map a_band (adjust i d qs) = map a_band qs"
proof (rule nth_equalityI)
  show "length (map a_band (adjust i d qs)) = length (map a_band qs)"
    by (simp add: adjust_def)
next
  fix j assume "j < length (map a_band (adjust i d qs))"
  then have "j < length qs" by (simp add: adjust_def)
  then show "map a_band (adjust i d qs) ! j = map a_band qs ! j"
    by (cases "i = j") (simp_all add: adjust_def)
qed

lemma length_adjust: "length (adjust i d qs) = length qs"
  by (simp add: adjust_def)

lemma withinSizes_adjust:
  assumes "withinSizes qs" "i < length qs" "inRange d (qs ! i)"
  shows "withinSizes (adjust i d qs)"
  using assms
  by (auto simp: withinSizes_def adjust_def inRange_def list_all_iff dest!: set_update_subset_insert [THEN subsetD])

lemma room_above:
  assumes "withinSizes qs" "sum_list (map a_quota qs) < int (sum_list (map a_size qs))"
  shows "\<exists>a\<in>set qs. inRange 1 a"
proof (rule ccontr)
  assume "\<not> (\<exists>a\<in>set qs. inRange 1 a)"
  with assms(1) have "\<forall>a\<in>set qs. int (a_size a) \<le> a_quota a"
    by (auto simp: withinSizes_def inRange_def list_all_iff)
  then have "sum_list (map (\<lambda>a. int (a_size a)) qs) \<le> sum_list (map a_quota qs)"
    by (intro sum_list_mono) auto
  moreover have "sum_list (map (\<lambda>a. int (a_size a)) qs) = int (sum_list (map a_size qs))"
    by (induction qs) auto
  ultimately show False using assms(2) by simp
qed

lemma room_below:
  assumes "withinSizes qs" "0 < sum_list (map a_quota qs)"
  shows "\<exists>a\<in>set qs. inRange (- 1) a"
proof (rule ccontr)
  assume none: "\<not> (\<exists>a\<in>set qs. inRange (- 1) a)"
  have "a_quota a \<le> 0" if "a \<in> set qs" for a
  proof -
    from assms(1) that have "a_quota a \<le> int (a_size a)"
      by (simp add: withinSizes_def list_all_iff)
    moreover from none that have "\<not> (0 \<le> a_quota a + (- 1) \<and> a_quota a + (- 1) \<le> int (a_size a))"
      by (simp add: inRange_def)
    ultimately show ?thesis by arith
  qed
  then have "sum_list (map a_quota qs) \<le> sum_list (map (\<lambda>a. 0) qs)"
    by (intro sum_list_mono) auto
  then show False using assms(2) by simp
qed

lemma rebalance_reaches:
  assumes "withinSizes qs" "0 \<le> k" "k \<le> int (sum_list (map a_size qs))"
    and "sum_list (map a_quota qs) + delta = k"
  shows "\<exists>qs'. rebalance qs delta = Some qs' \<and> sum_list (map a_quota qs') = k \<and>
           map a_band qs' = map a_band qs \<and> map a_size qs' = map a_size qs \<and> withinSizes qs'"
  using assms
proof (induction qs delta rule: rebalance.induct)
  case (1 qs delta)
  show ?case
  proof (cases "delta = 0")
    case True
    with "1.prems" show ?thesis by simp
  next
    case False
    define d :: int where "d = (if delta > 0 then 1 else - 1)"
    have ex: "\<exists>a\<in>set qs. inRange d a"
    proof (cases "delta > 0")
      case True
      with "1.prems" have "sum_list (map a_quota qs) < int (sum_list (map a_size qs))" by simp
      with "1.prems"(1) True show ?thesis unfolding d_def by (simp add: room_above)
    next
      case neg: False
      with False "1.prems" have "0 < sum_list (map a_quota qs)" by simp
      with "1.prems"(1) neg show ?thesis unfolding d_def by (simp add: room_below)
    qed
    then obtain i where p: "pick d qs = Some i"
      using pick_None [of d qs] by (cases "pick d qs") auto
    then have i: "i < length qs" "inRange d (qs ! i)"
      using pick_Some by blast+
    have w: "withinSizes (adjust i d qs)"
      using "1.prems"(1) i by (rule withinSizes_adjust)
    have s: "sum_list (map a_quota (adjust i d qs)) + (delta - d) = k"
      using "1.prems"(4) i(1) by (simp add: sum_adjust)
    have k: "k \<le> int (sum_list (map a_size (adjust i d qs)))"
      using "1.prems"(3) by (simp add: sizes_adjust)
    have ih: "\<exists>qs'. rebalance (adjust i d qs) (delta - d) = Some qs' \<and>
        sum_list (map a_quota qs') = k \<and> map a_band qs' = map a_band (adjust i d qs) \<and>
        map a_size qs' = map a_size (adjust i d qs) \<and> withinSizes qs'"
      using "1.IH" [OF False p [unfolded d_def] w [unfolded d_def] "1.prems"(2)
          k [unfolded d_def] s [unfolded d_def]]
      unfolding d_def .
    have step: "rebalance qs delta = rebalance (adjust i d qs) (delta - d)"
      using False p by (subst rebalance.simps) (simp add: d_def)
    from ih show ?thesis
      unfolding step by (simp add: sizes_adjust bands_adjust)
  qed
qed


lemma sizes_initialQuotas:
  "map a_size (initialQuotas bandSizes k) = map snd bandSizes"
  by (simp add: initialQuotas_def split_beta)

lemma bands_initialQuotas:
  "map a_band (initialQuotas bandSizes k) = map fst bandSizes"
  by (simp add: initialQuotas_def split_beta)

lemma member_le_total:
  "(b, n) \<in> set bandSizes \<Longrightarrow> n \<le> totalPopulation bandSizes"
  unfolding totalPopulation_def by (induction bandSizes) auto

lemma rawShare_bounds:
  assumes "0 \<le> k" "k < int (totalPopulation bandSizes)"
  shows "0 \<le> rawShare bandSizes k n \<and> rawShare bandSizes k n \<le> of_nat n"
proof -
  define t where "t = totalPopulation bandSizes"
  from assms have tpos: "0 < t" by (simp add: t_def)
  have r: "rawShare bandSizes k n = (of_nat n * of_int k) / of_nat t"
    by (simp add: rawShare_def t_def)
  have k1: "(of_int k :: rat) \<le> of_nat t"
    using assms(2) unfolding t_def by (metis less_imp_le of_int_le_iff of_int_of_nat_eq)
  have k0: "(0 :: rat) \<le> of_int k"
    using assms(1) by simp
  have "(of_nat n * of_int k :: rat) \<le> of_nat n * of_nat t"
    using k1 by (intro mult_left_mono) simp_all
  then have up: "(of_nat n * of_int k) / of_nat t \<le> (of_nat n :: rat)"
    using tpos by (simp add: pos_divide_le_eq)
  have lo: "(0 :: rat) \<le> (of_nat n * of_int k) / of_nat t"
    using k0 by simp
  from up lo show ?thesis unfolding r by simp
qed

lemma withinSizes_initialQuotas:
  assumes "0 \<le> k" "k < int (totalPopulation bandSizes)"
  shows "withinSizes (initialQuotas bandSizes k)"
proof -
  have "0 \<le> round (rawShare bandSizes k n) \<and> round (rawShare bandSizes k n) \<le> int n" for n
  proof -
    from rawShare_bounds [OF assms, of n]
    have b: "0 \<le> rawShare bandSizes k n" "rawShare bandSizes k n \<le> of_nat n" by simp_all
    from b(1) have "round (0 :: rat) \<le> round (rawShare bandSizes k n)" by (rule round_mono)
    moreover from b(2) have "round (rawShare bandSizes k n) \<le> round (of_nat n :: rat)"
      by (rule round_mono)
    ultimately show ?thesis by simp
  qed
  then show ?thesis
    by (simp add: withinSizes_def initialQuotas_def list_all_iff split_beta)
qed

lemma sum_sizes_as_quotas:
  "sum_list (map snd (map (\<lambda>(b, n). (b, int n)) bandSizes)) = int (totalPopulation bandSizes)"
  unfolding totalPopulation_def by (induction bandSizes) auto

text \<open>
  C5. For every \<open>k\<close> with \<open>0 \<le> k \<le> totalPopulation\<close>, \<open>allocate\<close> returns quotas,
  one per band of the map and in its order, whose sum is exactly \<open>k\<close>, and does not
  flag the result as truncated. (The map need not even be non-empty.)
\<close>

theorem allocate_sums_to_k:
  assumes "0 \<le> k" and "k \<le> int (totalPopulation bandSizes)"
  shows "\<exists>q. allocate bandSizes k = Some q \<and> sum_list (map snd (quotas q)) = k \<and>
           map fst (quotas q) = map fst bandSizes \<and> \<not> truncated q"
proof (cases "k = int (totalPopulation bandSizes)")
  case True
  then have "allocate bandSizes k =
      Some \<lparr>quotas = map (\<lambda>(b, n). (b, int n)) bandSizes, truncated = False\<rparr>"
    by (simp add: allocate_def)
  moreover have "map fst (map (\<lambda>(b, n). (b, int n)) bandSizes) = map fst bandSizes"
    by (simp add: split_beta)
  ultimately show ?thesis
    using True sum_sizes_as_quotas [of bandSizes] by simp
next
  case False
  with assms have lt: "k < int (totalPopulation bandSizes)" by simp
  define qs where "qs = initialQuotas bandSizes k"
  have w: "withinSizes qs"
    unfolding qs_def using assms(1) lt by (rule withinSizes_initialQuotas)
  have kk: "k \<le> int (sum_list (map a_size qs))"
    using assms(2) by (simp add: qs_def sizes_initialQuotas totalPopulation_def)
  have "sum_list (map a_quota qs) + (k - sum_list (map a_quota qs)) = k" by simp
  from rebalance_reaches [OF w assms(1) kk this]
  obtain qs' where r: "rebalance qs (k - sum_list (map a_quota qs)) = Some qs'"
    and s: "sum_list (map a_quota qs') = k" and b: "map a_band qs' = map a_band qs"
    by blast
  have a: "allocate bandSizes k =
      Some \<lparr>quotas = map (\<lambda>a. (a_band a, a_quota a)) qs', truncated = False\<rparr>"
    using lt r by (simp add: allocate_def qs_def)
  have s': "sum_list (map snd (map (\<lambda>a. (a_band a, a_quota a)) qs')) = k"
    using s by (simp add: comp_def)
  have b': "map fst (map (\<lambda>a. (a_band a, a_quota a)) qs') = map fst bandSizes"
    using b by (simp add: comp_def qs_def bands_initialQuotas)
  from a s' b' show ?thesis by simp
qed

theorem allocate_sums_to_k_witness:
  "(0::int) \<le> 10 \<and> (10::int) \<le> int (totalPopulation [(Left, 30), (Common, 10), (Right, 60)]) \<and>
   allocate [(Left, 30), (Common, 10), (Right, 60)] 10 =
     Some \<lparr>quotas = [(Left, 3), (Common, 1), (Right, 6)], truncated = False\<rparr> \<and>
   (\<exists>q. allocate [(Left, 30), (Common, 10), (Right, 60)] 10 = Some q \<and>
        sum_list (map snd (quotas q)) = 10)"
proof -
  have h: "(0::int) \<le> 10" "(10::int) \<le> int (totalPopulation [(Left, 30), (Common, 10), (Right, 60)])"
    by (simp_all add: totalPopulation_def)
  have e: "allocate [(Left, 30), (Common, 10), (Right, 60)] 10 =
     Some \<lparr>quotas = [(Left, 3), (Common, 1), (Right, 6)], truncated = False\<rparr>"
    by code_simp
  from allocate_sums_to_k [OF h] h e show ?thesis by blast
qed


section \<open>Properties of the significance explanation\<close>

lemma derived_significance_bounds:
  assumes "buildSignificanceExplanation N None = Some e"
  shows "0 \<le> expl_s e \<and> (N \<le> 136 \<longrightarrow> expl_s e \<le> 1)"
proof -
  from assms have s: "expl_s e = (max 0 (of_int N - 8) / 128) powr (1 / 2.8)"
    by (auto simp: buildSignificanceExplanation_def Let_def split: if_splits)
  have "N \<le> 136 \<Longrightarrow> \<bar>max 0 (real_of_int N - 8) / 128\<bar> \<le> 1"
    by simp
  then have "N \<le> 136 \<Longrightarrow> (max 0 (real_of_int N - 8) / 128) powr (1 / 2.8) \<le> 1"
    by (intro powr_le1) simp_all
  then show ?thesis unfolding s by simp
qed

text \<open>
  C8 fails on the code. For a total of 200 perspectives and no supplied significance,
  the derived significance is \<open>(192 / 128) powr (1 / 2.8)\<close>, which is greater than 1:
  the derivation clamps at 0 only.
\<close>

theorem inferred_significance_exceeds_one:
  "\<exists>e. buildSignificanceExplanation 200 None = Some e \<and> expl_derived e \<and> 1 < expl_s e"
proof -
  have "(1::real) < (3 / 2) powr (1 / 2.8)"
    by (rule gr_one_powr) simp_all
  then show ?thesis
    by (simp add: buildSignificanceExplanation_def Let_def)
qed


end
